theory Spec2Isabelle
  imports Main
begin

section \<open>Data model of the disk cache (cache/disk/disk.go)\<close>

text \<open>
  Blob contents, digests and paths are Go strings or byte slices: sequences of bytes,
  here \<open>string\<close> (a list of 8-bit characters), so that \<open>length\<close> is Go's \<open>len\<close>.
  Sizes are Go \<open>int64\<close>. disk.go only stores and compares sizes; all arithmetic on
  them happens inside the size-bounded index, which is missing from the sources and is
  modelled from the wording of the specification, on mathematical integers.
\<close>

datatype EntryKind = AC | CAS | RAW

text \<open>
  Modelled from the spec: the declaration of \<open>cache.EntryKind\<close> and its \<open>String\<close> method is
  missing from the sources; the specification gives the path tags \<open>cas\<close>, \<open>ac\<close>, \<open>raw\<close>.
\<close>

fun kind_String :: "EntryKind \<Rightarrow> string" where
  "kind_String AC = ''ac''"
| "kind_String CAS = ''cas''"
| "kind_String RAW = ''raw''"

text \<open>The struct \<open>lruItem\<close>; the index and the uploading goroutine hold pointers to it.\<close>

record lruItem =
  item_size :: int
  committed :: bool

text \<open>
  The errors the engine returns. The source builds them with \<open>fmt.Errorf\<close>, with
  \<open>cache.Error\<close> (code 507) or passes on the error of a system call; the model keeps
  one tag for each origin (\<open>UnmarshalError\<close> for \<open>proto.Unmarshal\<close>, \<open>UnexpectedSize\<close> for
  a Tree blob whose size is not the declared one). \<open>NilDereference\<close> is Go's run-time
  panic on a nil pointer.
\<close>

datatype error =
    InvalidHashSize
  | ErrTooBig
  | HashMismatch
  | SizeMismatch
  | IOError
  | ProxyError
  | UnmarshalError
  | UnexpectedSize
  | NilDereference

text \<open>
  An \<open>io.Reader\<close>: the bytes it yields, and whether the stream then ends with a read
  error instead of end-of-file.
\<close>

record reader =
  rd_bytes :: string
  rd_err :: bool

text \<open>
  The interface \<open>cache.CacheProxy\<close>, an external collaborator. \<open>proxy_Get\<close> answers
  with the triple (reader or nil, size, error or nil) of the Go method.
\<close>

record CacheProxy =
  proxy_Get :: "EntryKind \<Rightarrow> string \<Rightarrow> reader option \<times> int \<times> bool"
  proxy_Contains :: "EntryKind \<Rightarrow> string \<Rightarrow> bool \<times> int"

text \<open>
  The system call of an operation that fails, if any: an operation returns at its first
  failing call, so one fault for each run of an operation describes the environment.
  \<open>WriteFault n\<close> is a failed write of \<open>io.Copy\<close> after \<open>n\<close> bytes reached the file.
\<close>

datatype io_fault =
    NoFault
  | CreateFault
  | WriteFault nat
  | SyncFault
  | CloseFault
  | RenameFault
  | StatFault
  | OpenFault
  | ReadFault

section \<open>The size-bounded LRU index\<close>

text \<open>
  The index maps a key to an item; the list is in LRU order, the head being the
  least recently used entry and the last element the most recently used one. The
  values are pointers (addresses in the store of items of the cache, below).
\<close>

record SizedLRU =
  entries :: "(string \<times> nat) list"
  currentSize :: int
  maxSize :: int

text \<open>
  Modelled from the spec: \<open>NewSizedLRU\<close> is missing from the sources. An empty index with
  the given budget; the eviction callback it is given is \<open>onEvict\<close> below, which the
  engine runs on the entries that \<open>lru_Add\<close> reports evicted.
\<close>

definition NewSizedLRU :: "int \<Rightarrow> SizedLRU" where
  "NewSizedLRU maxSizeBytes = \<lparr>entries = [], currentSize = 0, maxSize = maxSizeBytes\<rparr>"

text \<open>
  Modelled from the spec: \<open>SizedLRU.Get\<close> is missing from the sources. "If present, moves
  the entry to the most-recently-used end and returns a stable reference to the value."
\<close>

definition lru_Get :: "string \<Rightarrow> SizedLRU \<Rightarrow> nat option \<times> SizedLRU" where
  "lru_Get key l =
     (case map_of (entries l) key of
        None \<Rightarrow> (None, l)
      | Some v \<Rightarrow>
          (Some v, l\<lparr>entries := filter (\<lambda>e. fst e \<noteq> key) (entries l) @ [(key, v)]\<rparr>))"

text \<open>
  Modelled from the spec: \<open>SizedLRU.Remove\<close> is missing from the sources. "If present,
  subtracts size and deletes; the eviction callback is NOT invoked."
\<close>

definition lru_Remove :: "(nat \<Rightarrow> int) \<Rightarrow> string \<Rightarrow> SizedLRU \<Rightarrow> SizedLRU" where
  "lru_Remove sz key l =
     (case map_of (entries l) key of
        None \<Rightarrow> l
      | Some v \<Rightarrow>
          l\<lparr>entries := filter (\<lambda>e. fst e \<noteq> key) (entries l),
            currentSize := currentSize l - sz v\<rparr>)"

text \<open>
  Modelled from the spec: the eviction loop of \<open>SizedLRU.Add\<close>. "While
  \<open>current_size + item.size() > max_size\<close>, evict the least-recently-used entry (size
  subtracted, callback invoked)." The loop ends when the index is empty. The result is
  the remaining entries, the remaining size and the evicted entries in eviction order.
\<close>

fun evict :: "(nat \<Rightarrow> int) \<Rightarrow> int \<Rightarrow> int \<Rightarrow> (string \<times> nat) list \<Rightarrow> int
    \<Rightarrow> (string \<times> nat) list \<times> int \<times> (string \<times> nat) list" where
  "evict sz n mx [] cs = ([], cs, [])"
| "evict sz n mx (e # es) cs =
     (if cs + n > mx
      then (case evict sz n mx es (cs - sz (snd e)) of
              (es', cs', ev) \<Rightarrow> (es', cs', e # ev))
      else (e # es, cs, []))"

text \<open>
  Modelled from the spec: \<open>SizedLRU.Add\<close> is missing from the sources. "If \<open>key\<close> already
  exists, the existing entry is removed first (its size subtracted, eviction callback NOT
  invoked for this overwrite). Then [the eviction loop]. If after eviction
  \<open>item.size() > max_size\<close>, the operation fails and returns \<open>false\<close> without adding.
  Otherwise the item is inserted at the most-recently-used end;
  \<open>current_size += item.size()\<close>; returns \<open>true\<close>." The third component is the list of
  evicted entries, on which the callback runs.
\<close>

definition lru_Add :: "(nat \<Rightarrow> int) \<Rightarrow> string \<Rightarrow> nat \<Rightarrow> SizedLRU
    \<Rightarrow> bool \<times> SizedLRU \<times> (string \<times> nat) list" where
  "lru_Add sz key v l =
     (let l1 = lru_Remove sz key l in
      case evict sz (sz v) (maxSize l1) (entries l1) (currentSize l1) of
        (es, cs, ev) \<Rightarrow>
          if sz v > maxSize l1
          then (False, l1\<lparr>entries := es, currentSize := cs\<rparr>, ev)
          else (True, l1\<lparr>entries := es @ [(key, v)], currentSize := cs + sz v\<rparr>, ev))"


section \<open>The disk cache\<close>

text \<open>
  The struct \<open>DiskCache\<close>. \<open>items\<close> is the store of the \<open>lruItem\<close> objects (the index
  holds their addresses, \<open>next_item\<close> is the next free address), \<open>files\<close> the regular
  files below the cache directory by their path relative to it. The mutex is not a
  field: every function below is one critical section or one stretch of unlocked file
  input and output together with the critical section that ends the operation.
\<close>

record DiskCache =
  proxy :: "CacheProxy option"
  lru :: SizedLRU
  items :: "nat \<Rightarrow> lruItem"
  next_item :: nat
  files :: "string \<rightharpoonup> string"

definition sha256_Size :: nat where
  "sha256_Size = 32"

definition sha256HashStrSize :: nat where
  "sha256HashStrSize = sha256_Size * 2"

text \<open>
  \<open>cacheKey\<close> joins the kind, the first two bytes of the hash and the hash with the
  path separator. (\<open>filepath.Join\<close> also normalises the result; that is the identity
  when the hash contains neither a separator nor a dot, as for every hex digest.)
  \<open>cacheFilePath\<close> prefixes the cache directory; paths here are relative to it.
\<close>

definition cacheKey :: "EntryKind \<Rightarrow> string \<Rightarrow> string" where
  "cacheKey kind hash = kind_String kind @ ''/'' @ take 2 hash @ ''/'' @ hash"

definition cacheFilePath :: "EntryKind \<Rightarrow> string \<Rightarrow> string" where
  "cacheFilePath kind hash = cacheKey kind hash"

text \<open>
  \<open>os.Remove\<close>: the file is gone afterwards. (\<open>Put\<close>, \<open>Get\<close> and the eviction callback
  ignore or log its error; the failure that \<open>loadExistingFiles\<close> returns is part of the
  fault of \<open>New\<close> below.)
\<close>

definition os_Remove :: "string \<Rightarrow> (string \<rightharpoonup> string) \<Rightarrow> (string \<rightharpoonup> string)" where
  "os_Remove path fs = fs(path := None)"

text \<open>\<open>os.Rename\<close> replaces the target; it fails when the source file does not exist.\<close>

definition os_Rename :: "string \<Rightarrow> string \<Rightarrow> (string \<rightharpoonup> string)
    \<Rightarrow> (string \<rightharpoonup> string) option" where
  "os_Rename old new fs =
     (case fs old of
        None \<Rightarrow> None
      | Some b \<Rightarrow> Some ((fs(old := None))(new \<mapsto> b)))"

text \<open>
  The eviction callback \<open>onEvict\<close> of \<open>New\<close>: a committed item loses its cache file; for
  an item that is still uploading the temporary file is removed first, then the cache
  file. Failures are only logged.
\<close>

definition onEvict :: "(nat \<Rightarrow> lruItem) \<Rightarrow> string \<times> nat
    \<Rightarrow> (string \<rightharpoonup> string) \<Rightarrow> (string \<rightharpoonup> string)" where
  "onEvict heap e fs =
     (let f = fst e in
      if committed (heap (snd e)) then os_Remove f fs
      else os_Remove f (os_Remove (f @ ''.tmp'') fs))"

text \<open>\<open>c.lru.Add\<close> under the lock of the cache, with the callback run on each evicted entry.\<close>

definition cache_Add :: "string \<Rightarrow> nat \<Rightarrow> DiskCache \<Rightarrow> bool \<times> DiskCache" where
  "cache_Add key v c =
     (case lru_Add (\<lambda>a. item_size (items c a)) key v (lru c) of
        (ok, l, ev) \<Rightarrow> (ok, c\<lparr>lru := l, files := fold (onEvict (items c)) ev (files c)\<rparr>))"

text \<open>The allocation \<open>&lruItem{...}\<close>: a fresh address holding the given item.\<close>

definition new_lruItem :: "int \<Rightarrow> bool \<Rightarrow> DiskCache \<Rightarrow> nat \<times> DiskCache" where
  "new_lruItem n b c =
     (next_item c,
      c\<lparr>items := (items c)(next_item c := \<lparr>item_size = n, committed = b\<rparr>),
        next_item := Suc (next_item c)\<rparr>)"

subsection \<open>Contains\<close>

definition Contains :: "EntryKind \<Rightarrow> string \<Rightarrow> DiskCache \<Rightarrow> (bool \<times> int) \<times> DiskCache" where
  "Contains kind hash c =
     (if length hash \<noteq> sha256HashStrSize then ((False, -1), c)
      else
        case lru_Get (cacheKey kind hash) (lru c) of
          (val, l) \<Rightarrow>
            let c1 = c\<lparr>lru := l\<rparr>;
                foundLocally = (case val of None \<Rightarrow> False | Some a \<Rightarrow> committed (items c a));
                size = (case val of None \<Rightarrow> -1 | Some a \<Rightarrow> item_size (items c a))
            in if foundLocally then ((True, size), c1)
               else (case proxy c of
                       Some p \<Rightarrow> (proxy_Contains p kind hash, c1)
                     | None \<Rightarrow> ((False, -1), c1)))"


definition MaxSize :: "DiskCache \<Rightarrow> int" where
  "MaxSize c = maxSize (lru c)"


subsection \<open>Put\<close>

text \<open>
  \<open>Put\<close> runs in two stretches. The first one, \<open>put_begin\<close>, is the check of the hash
  length and the first critical section: an upload of the key that is under way makes
  this upload drain its reader and return \<open>nil\<close>; otherwise the new item is added to the
  index, uncommitted, which fails for an item bigger than the cache.
\<close>

datatype put_admission = Rejected error | Drained | Admitted nat

definition put_begin :: "EntryKind \<Rightarrow> string \<Rightarrow> int \<Rightarrow> DiskCache \<Rightarrow> put_admission \<times> DiskCache" where
  "put_begin kind hash expectedSize c =
     (if length hash \<noteq> sha256HashStrSize then (Rejected InvalidHashSize, c)
      else
        case lru_Get (cacheKey kind hash) (lru c) of
          (existingItem, l) \<Rightarrow>
            let c1 = c\<lparr>lru := l\<rparr> in
            if (case existingItem of None \<Rightarrow> False | Some a \<Rightarrow> \<not> committed (items c a))
            then (Drained, c1)
            else
              case new_lruItem expectedSize False c1 of
                (newItem, c2) \<Rightarrow>
                  case cache_Add (cacheKey kind hash) newItem c2 of
                    (ok, c3) \<Rightarrow>
                      if \<not> ok then (Rejected ErrTooBig, c3) else (Admitted newItem, c3))"

text \<open>
  \<open>io.Copy\<close> into the temporary file: the bytes that reached the file and whether the
  copy returned an error (a failed write, or the error of the reader).
\<close>

definition io_Copy :: "io_fault \<Rightarrow> reader \<Rightarrow> string \<times> bool" where
  "io_Copy io r =
     (case io of
        WriteFault n \<Rightarrow> (take n (rd_bytes r), True)
      | _ \<Rightarrow> (rd_bytes r, rd_err r))"

text \<open>
  The unlocked part of \<open>Put\<close>, from \<open>os.Create\<close> to \<open>os.Rename\<close>, with the deferred
  removal of the temporary file, which is registered once the file is created. The
  parameter \<open>H\<close> is the hex-encoded SHA-256 of a byte sequence (\<open>crypto/sha256\<close> and
  \<open>hex.EncodeToString\<close>). The result is the returned error, the flag \<open>shouldCommit\<close>
  and the files afterwards.
\<close>

definition put_upload :: "(string \<Rightarrow> string) \<Rightarrow> io_fault \<Rightarrow> EntryKind \<Rightarrow> string \<Rightarrow> int \<Rightarrow> reader
    \<Rightarrow> (string \<rightharpoonup> string) \<Rightarrow> error option \<times> bool \<times> (string \<rightharpoonup> string)" where
  "put_upload H io kind hash expectedSize r fs =
     (let filePath = cacheFilePath kind hash;
          tmpFilePath = filePath @ ''.tmp''
      in
      if io = CreateFault then (Some IOError, False, fs)
      else
        case io_Copy io r of
          (written, copyErr) \<Rightarrow>
            let fs1 = fs(tmpFilePath \<mapsto> written);
                bytesCopied = int (length written)
            in
            if copyErr then (Some IOError, False, os_Remove tmpFilePath fs1)
            else if kind = CAS \<and> H written \<noteq> hash
              then (Some HashMismatch, False, os_Remove tmpFilePath fs1)
            else if io = SyncFault then (Some IOError, False, os_Remove tmpFilePath fs1)
            else if io = CloseFault then (Some IOError, False, os_Remove tmpFilePath fs1)
            else if bytesCopied \<noteq> expectedSize
              then (Some SizeMismatch, False, os_Remove tmpFilePath fs1)
            else if io = RenameFault then (Some IOError, False, os_Remove tmpFilePath fs1)
            else
              case os_Rename tmpFilePath filePath fs1 of
                None \<Rightarrow> (Some IOError, False, os_Remove tmpFilePath fs1)
              | Some fs2 \<Rightarrow> (None, True, fs2))"

text \<open>
  The second stretch of \<open>Put\<close>: the upload, then the deferred critical section, which
  sets \<open>committed\<close> in the item this upload allocated (through its pointer \<open>newItem\<close>) or
  removes the key from the index. The hand-over of the committed file to the proxy
  (\<open>c.proxy.Put\<close>) has no result and no effect on the cache.
\<close>

definition put_finish :: "(string \<Rightarrow> string) \<Rightarrow> io_fault \<Rightarrow> EntryKind \<Rightarrow> string \<Rightarrow> int \<Rightarrow> reader
    \<Rightarrow> nat \<Rightarrow> DiskCache \<Rightarrow> error option \<times> DiskCache" where
  "put_finish H io kind hash expectedSize r newItem c =
     (case put_upload H io kind hash expectedSize r (files c) of
        (err, shouldCommit, fs) \<Rightarrow>
          let c1 = c\<lparr>files := fs\<rparr> in
          if shouldCommit
          then (err, c1\<lparr>items := (items c1)(newItem := (items c1 newItem)\<lparr>committed := True\<rparr>)\<rparr>)
          else (err, c1\<lparr>lru := lru_Remove (\<lambda>a. item_size (items c1 a))
                                  (cacheKey kind hash) (lru c1)\<rparr>))"

text \<open>\<open>Put\<close> as one call, with no other operation between its two stretches.\<close>

definition Put :: "(string \<Rightarrow> string) \<Rightarrow> io_fault \<Rightarrow> EntryKind \<Rightarrow> string \<Rightarrow> int \<Rightarrow> reader
    \<Rightarrow> DiskCache \<Rightarrow> error option \<times> DiskCache" where
  "Put H io kind hash expectedSize r c =
     (case put_begin kind hash expectedSize c of
        (Rejected e, c1) \<Rightarrow> (Some e, c1)
      | (Drained, c1) \<Rightarrow> (None, c1)
      | (Admitted newItem, c1) \<Rightarrow> put_finish H io kind hash expectedSize r newItem c1)"

subsection \<open>Get\<close>

text \<open>
  The three results of \<open>Get\<close>: an error, \<open>(nil, -1, nil)\<close> for an item that is not
  found, or a reader (the bytes it yields) with the size.
\<close>

datatype get_outcome = GetErr error | GetMiss | GetHit string int

definition availableOrTryProxy :: "string \<Rightarrow> DiskCache \<Rightarrow> (bool \<times> bool) \<times> DiskCache" where
  "availableOrTryProxy key c =
     (case lru_Get key (lru c) of
        (Some a, l) \<Rightarrow> ((committed (items c a), False), c\<lparr>lru := l\<rparr>)
      | (None, l) \<Rightarrow>
          (case proxy c of
             None \<Rightarrow> ((False, False), c\<lparr>lru := l\<rparr>)
           | Some p \<Rightarrow>
               (case new_lruItem 0 False (c\<lparr>lru := l\<rparr>) of
                  (a, c1) \<Rightarrow>
                    (case cache_Add key a c1 of
                       (tryProxy, c2) \<Rightarrow> ((False, tryProxy), c2)))))"

text \<open>
  The first stretch of \<open>Get\<close>: the check of the hash length, \<open>availableOrTryProxy\<close> and
  the local answer. \<open>None\<close> stands for the case that goes on to the proxy.
\<close>

definition get_begin :: "io_fault \<Rightarrow> EntryKind \<Rightarrow> string \<Rightarrow> DiskCache
    \<Rightarrow> get_outcome option \<times> DiskCache" where
  "get_begin io kind hash c =
     (if length hash \<noteq> sha256HashStrSize then (Some (GetErr InvalidHashSize), c)
      else
        case availableOrTryProxy (cacheKey kind hash) c of
          ((available, tryProxy), c1) \<Rightarrow>
            if available then
              (case (if io = StatFault then None else files c1 (cacheFilePath kind hash)) of
                 None \<Rightarrow> (Some (GetErr IOError), c1)
               | Some b \<Rightarrow>
                   if io = OpenFault then (Some (GetErr IOError), c1)
                   else (Some (GetHit b (int (length b))), c1))
            else if \<not> tryProxy then (Some GetMiss, c1)
            else (None, c1))"

text \<open>
  The download from the proxy into the temporary file and its renaming, with the
  deferred removal of the temporary file. The result is the answer of \<open>Get\<close>, the flag
  \<open>shouldCommit\<close>, \<open>foundSize\<close> and the files afterwards. Calling a method of a nil proxy
  panics.
\<close>

definition get_download :: "io_fault \<Rightarrow> EntryKind \<Rightarrow> string \<Rightarrow> CacheProxy option
    \<Rightarrow> (string \<rightharpoonup> string) \<Rightarrow> get_outcome \<times> bool \<times> int \<times> (string \<rightharpoonup> string)" where
  "get_download io kind hash px fs =
     (let filePath = cacheFilePath kind hash;
          tmpFilePath = filePath @ ''.tmp''
      in
      case px of
        None \<Rightarrow> (GetErr NilDereference, False, -1, fs)
      | Some p \<Rightarrow>
          (case proxy_Get p kind hash of
             (r, foundSize, err) \<Rightarrow>
               if err then (GetErr ProxyError, False, foundSize, fs)
               else
                 (case r of
                    None \<Rightarrow> (GetMiss, False, foundSize, fs)
                  | Some rd \<Rightarrow>
                      if io = CreateFault then (GetErr IOError, False, foundSize, fs)
                      else
                        (case io_Copy io rd of
                           (written, copyErr) \<Rightarrow>
                             let fs1 = fs(tmpFilePath \<mapsto> written) in
                             if copyErr
                               then (GetErr IOError, False, foundSize, os_Remove tmpFilePath fs1)
                             else if int (length written) \<noteq> foundSize
                               then (GetMiss, False, foundSize, os_Remove tmpFilePath fs1)
                             else if io = SyncFault
                               then (GetErr IOError, False, foundSize, os_Remove tmpFilePath fs1)
                             else if io = CloseFault
                               then (GetErr IOError, False, foundSize, os_Remove tmpFilePath fs1)
                             else if io = RenameFault
                               then (GetErr IOError, False, foundSize, os_Remove tmpFilePath fs1)
                             else
                               (case os_Rename tmpFilePath filePath fs1 of
                                  None \<Rightarrow>
                                    (GetErr IOError, False, foundSize, os_Remove tmpFilePath fs1)
                                | Some fs2 \<Rightarrow>
                                    if io = OpenFault then (GetErr IOError, True, foundSize, fs2)
                                    else (GetHit written foundSize, True, foundSize, fs2))))))"

text \<open>
  The second stretch of \<open>Get\<close>: the download, then the deferred critical section, which
  replaces the placeholder by a committed item of the size found (the result of this
  \<open>Add\<close> is ignored) or removes the placeholder.
\<close>

definition get_finish :: "io_fault \<Rightarrow> EntryKind \<Rightarrow> string \<Rightarrow> DiskCache \<Rightarrow> get_outcome \<times> DiskCache" where
  "get_finish io kind hash c =
     (case get_download io kind hash (proxy c) (files c) of
        (res, shouldCommit, foundSize, fs) \<Rightarrow>
          let c1 = c\<lparr>files := fs\<rparr> in
          if shouldCommit
          then (case new_lruItem foundSize True c1 of
                  (a, c2) \<Rightarrow> (res, snd (cache_Add (cacheKey kind hash) a c2)))
          else (res, c1\<lparr>lru := lru_Remove (\<lambda>a. item_size (items c1 a))
                                  (cacheKey kind hash) (lru c1)\<rparr>))"

text \<open>\<open>Get\<close> as one call, with no other operation between its two stretches.\<close>

definition Get :: "io_fault \<Rightarrow> EntryKind \<Rightarrow> string \<Rightarrow> DiskCache \<Rightarrow> get_outcome \<times> DiskCache" where
  "Get io kind hash c =
     (case get_begin io kind hash c of
        (Some res, c1) \<Rightarrow> (res, c1)
      | (None, c1) \<Rightarrow> get_finish io kind hash c1)"

subsection \<open>Start-up\<close>

text \<open>
  What \<open>filepath.Walk\<close> reports for a regular file: its path relative to the cache
  directory and, of its \<open>os.FileInfo\<close>, the length in bytes and the access time.
\<close>

record FileInfo =
  fi_Size :: nat
  fi_atime :: nat

record nameAndInfo =
  name :: string
  info :: FileInfo

text \<open>The loop of \<open>loadExistingFiles\<close> that builds the index; a file that does not fit is deleted.\<close>

fun build_index :: "nameAndInfo list \<Rightarrow> DiskCache \<Rightarrow> DiskCache" where
  "build_index [] c = c"
| "build_index (f # fs) c =
     (case new_lruItem (int (fi_Size (info f))) True c of
        (a, c1) \<Rightarrow>
          (case cache_Add (name f) a c1 of
             (ok, c2) \<Rightarrow>
               build_index fs
                 (if ok then c2 else c2\<lparr>files := os_Remove (name f) (files c2)\<rparr>)))"

text \<open>
  \<open>loadExistingFiles\<close>, given the files the walk found: they are sorted by increasing
  access time and added in that order. (\<open>sort.Slice\<close> leaves the order of files of equal
  access time open; the model keeps the order of the walk for them.)
\<close>

definition loadExistingFiles :: "nameAndInfo list \<Rightarrow> DiskCache \<Rightarrow> DiskCache" where
  "loadExistingFiles walked c = build_index (sort_key (\<lambda>f. fi_atime (info f)) walked) c"

text \<open>
  \<open>New\<close>; \<open>new_DiskCache\<close> is the struct it allocates, with an empty index and no
  item in the store. The creation of the directories, the migration of the old directory layout and
  the directory walk belong to the environment: \<open>fs\<close> is the content of the cache
  directory after the migration, \<open>walked\<close> what the walk reports, and a fault is the
  failure of any of these calls, on which \<open>New\<close> returns the error.
\<close>

definition new_DiskCache :: "int \<Rightarrow> CacheProxy option \<Rightarrow> (string \<rightharpoonup> string) \<Rightarrow> DiskCache" where
  "new_DiskCache maxSizeBytes px fs =
     \<lparr>proxy = px, lru = NewSizedLRU maxSizeBytes,
      items = (\<lambda>a. \<lparr>item_size = 0, committed = False\<rparr>),
      next_item = 0, files = fs\<rparr>"

definition New :: "io_fault \<Rightarrow> int \<Rightarrow> CacheProxy option \<Rightarrow> (string \<rightharpoonup> string) \<Rightarrow> nameAndInfo list
    \<Rightarrow> error + DiskCache" where
  "New io maxSizeBytes px fs walked =
     (if io \<noteq> NoFault then Inl IOError
      else Inr (loadExistingFiles walked (new_DiskCache maxSizeBytes px fs)))"

subsection \<open>GetValidatedActionResult\<close>
















section \<open>Vocabulary of the properties\<close>



text \<open>
  The invariant behind the accounting property, for an index and the sizes \<open>sz\<close> of the
  items at its addresses: the accounting itself, one entry for each key, and no negative
  size.
\<close>

definition lru_ok :: "(nat \<Rightarrow> int) \<Rightarrow> SizedLRU \<Rightarrow> bool" where
  "lru_ok sz l =
     (sum_list (map (\<lambda>e. sz (snd e)) (entries l)) = currentSize l \<and>
      currentSize l \<le> maxSize l \<and>
      distinct (map fst (entries l)) \<and>
      (\<forall>e \<in> set (entries l). 0 \<le> sz (snd e)))"

text \<open>For a cache moreover: the index holds allocated addresses only.\<close>

definition cache_inv :: "DiskCache \<Rightarrow> bool" where
  "cache_inv c =
     (lru_ok (\<lambda>a. item_size (items c a)) (lru c) \<and>
      (\<forall>e \<in> set (entries (lru c)). snd e < next_item c))"

text \<open>
  The operations of the engine, as seen by the index: the three calls, and the two
  stretches of \<open>Put\<close> and of \<open>Get\<close> on their own, between which the operations of other
  goroutines may run. \<open>run\<close> executes a sequence of them. \<open>declared_size_ok\<close> says that
  an upload declares no negative size.
\<close>

datatype engine_op =
    OpPut io_fault EntryKind string int reader
  | OpGet io_fault EntryKind string
  | OpContains EntryKind string
  | OpPutBegin EntryKind string int
  | OpPutFinish io_fault EntryKind string int reader nat
  | OpGetBegin io_fault EntryKind string
  | OpGetFinish io_fault EntryKind string

fun step :: "(string \<Rightarrow> string) \<Rightarrow> engine_op \<Rightarrow> DiskCache \<Rightarrow> DiskCache" where
  "step H (OpPut io kind hash n r) c = snd (Put H io kind hash n r c)"
| "step H (OpGet io kind hash) c = snd (Get io kind hash c)"
| "step H (OpContains kind hash) c = snd (Contains kind hash c)"
| "step H (OpPutBegin kind hash n) c = snd (put_begin kind hash n c)"
| "step H (OpPutFinish io kind hash n r a) c = snd (put_finish H io kind hash n r a c)"
| "step H (OpGetBegin io kind hash) c = snd (get_begin io kind hash c)"
| "step H (OpGetFinish io kind hash) c = snd (get_finish io kind hash c)"

fun declared_size_ok :: "engine_op \<Rightarrow> bool" where
  "declared_size_ok (OpPut io kind hash n r) = (0 \<le> n)"
| "declared_size_ok (OpPutBegin kind hash n) = (0 \<le> n)"
| "declared_size_ok _ = True"

definition run :: "(string \<Rightarrow> string) \<Rightarrow> engine_op list \<Rightarrow> DiskCache \<Rightarrow> DiskCache" where
  "run H ops c = fold (step H) ops c"

text \<open>
  No operation is under way: every index entry is committed. \<open>committed_but x\<close> allows
  the one entry \<open>x\<close> of an operation under way. \<open>whole_op\<close> are the calls that run from
  start to end without another operation in between.
\<close>

definition all_committed :: "DiskCache \<Rightarrow> bool" where
  "all_committed c = (\<forall>e \<in> set (entries (lru c)). committed (items c (snd e)))"

fun whole_op :: "engine_op \<Rightarrow> bool" where
  "whole_op (OpPut io kind hash n r) = True"
| "whole_op (OpGet io kind hash) = True"
| "whole_op (OpContains kind hash) = True"
| "whole_op _ = False"

definition committed_but :: "string \<times> nat \<Rightarrow> DiskCache \<Rightarrow> bool" where
  "committed_but x c = (\<forall>e \<in> set (entries (lru c)). e = x \<or> committed (items c (snd e)))"







subsection \<open>Concrete inputs\<close>


definition hash_a :: string where
  "hash_a = ''ca978112ca1bbdcafac231b39a23dc4da786eff8147c4e72b9807785afee48bb''"








text \<open>A proxy that has every blob, with size 5, for \<open>Contains\<close> and serves none.\<close>

definition proxy_has_5 :: CacheProxy where
  "proxy_has_5 = \<lparr>proxy_Get = (\<lambda>kind hash. (None, -1, False)),
                   proxy_Contains = (\<lambda>kind hash. (True, 5))\<rparr>"















section \<open>Lemmas about the index and the operations\<close>

lemma sum_filter_key:
  "distinct (map fst es) \<Longrightarrow> map_of es k = Some v \<Longrightarrow>
   sum_list (map (\<lambda>e. sz (snd e)) (filter (\<lambda>e. fst e \<noteq> k) es)) =
   sum_list (map (\<lambda>e. sz (snd e)) es) - (sz v :: int)"
proof (induction es)
  case Nil
  then show ?case by simp
next
  case (Cons e es)
  show ?case
  proof (cases "fst e = k")
    case True
    with Cons.prems have "snd e = v" by (cases e) auto
    moreover from True Cons.prems have "filter (\<lambda>e. fst e \<noteq> k) es = es"
      by (force simp: filter_id_conv image_iff)
    ultimately show ?thesis using True by simp
  next
    case False
    with Cons show ?thesis by (cases e) auto
  qed
qed

lemma filter_key_absent:
  "map_of es k = None \<Longrightarrow> filter (\<lambda>e. fst e \<noteq> k) es = es"
  by (auto simp: filter_id_conv map_of_eq_None_iff)

lemma evict_split:
  "evict sz n mx es cs = (es', cs', ev) \<Longrightarrow>
   es = ev @ es' \<and> cs' = cs - sum_list (map (\<lambda>e. sz (snd e)) ev) \<and>
   (es' = [] \<or> cs' + n \<le> mx)"
proof (induction es arbitrary: cs es' cs' ev)
  case Nil
  then show ?case by simp
next
  case (Cons e es)
  show ?case
  proof (cases "cs + n > mx")
    case True
    obtain a b d where r: "evict sz n mx es (cs - sz (snd e)) = (a, b, d)"
      by (cases "evict sz n mx es (cs - sz (snd e))") auto
    from Cons.IH[OF r] Cons.prems True r show ?thesis by auto
  next
    case False
    with Cons.prems show ?thesis by auto
  qed
qed

lemma distinct_filter_key:
  "distinct (map fst es) \<Longrightarrow> distinct (map fst (filter (\<lambda>e. fst e \<noteq> k) es))"
  by (induction es) auto

lemma key_not_in_filter:
  "k \<notin> fst ` set (filter (\<lambda>e. fst e \<noteq> k) es)"
  by auto

lemma map_of_filter_key:
  "map_of (filter (\<lambda>e. fst e \<noteq> key) es) k = (if k = key then None else map_of es k)"
  by (induction es) auto

lemma lru_Get_ok:
  assumes "lru_ok sz l"
  shows "lru_ok sz (snd (lru_Get key l))"
proof (cases "map_of (entries l) key")
  case None
  then show ?thesis using assms by (simp add: lru_Get_def)
next
  case (Some v)
  from assms have d: "distinct (map fst (entries l))" by (simp add: lru_ok_def)
  have mem: "(key, v) \<in> set (entries l)" using Some by (rule map_of_SomeD)
  have s: "sum_list (map (\<lambda>e. sz (snd e)) (filter (\<lambda>e. fst e \<noteq> key) (entries l)))
           = sum_list (map (\<lambda>e. sz (snd e)) (entries l)) - sz v"
    using d Some by (rule sum_filter_key)
  have "0 \<le> sz v" using assms mem by (force simp: lru_ok_def)
  with assms s d mem show ?thesis
    by (auto simp: lru_Get_def Some lru_ok_def distinct_filter_key)
qed

lemma lru_Get_fields:
  "maxSize (snd (lru_Get key l)) = maxSize l"
  "currentSize (snd (lru_Get key l)) = currentSize l"
  "set (entries (snd (lru_Get key l))) \<subseteq> set (entries l)"
  "map_of (entries (snd (lru_Get key l))) = map_of (entries l)"
  "fst (lru_Get key l) = map_of (entries l) key"
proof -
  show "maxSize (snd (lru_Get key l)) = maxSize l"
    by (simp add: lru_Get_def split: option.splits)
  show "currentSize (snd (lru_Get key l)) = currentSize l"
    by (simp add: lru_Get_def split: option.splits)
  show "set (entries (snd (lru_Get key l))) \<subseteq> set (entries l)"
    by (auto simp: lru_Get_def split: option.splits dest: map_of_SomeD)
  show "fst (lru_Get key l) = map_of (entries l) key"
    by (simp add: lru_Get_def split: option.splits)
  show "map_of (entries (snd (lru_Get key l))) = map_of (entries l)"
  proof (cases "map_of (entries l) key")
    case None
    then show ?thesis by (simp add: lru_Get_def)
  next
    case (Some v)
    have "map_of (filter (\<lambda>e. fst e \<noteq> key) (entries l) @ [(key, v)]) k = map_of (entries l) k" for k
      by (auto simp: map_add_def map_of_filter_key Some split: option.splits)
    then show ?thesis by (auto simp: lru_Get_def Some)
  qed
qed

lemma lru_Remove_ok:
  assumes "lru_ok sz l"
  shows "lru_ok sz (lru_Remove sz key l)"
proof (cases "map_of (entries l) key")
  case None
  then show ?thesis using assms by (simp add: lru_Remove_def)
next
  case (Some v)
  from assms have d: "distinct (map fst (entries l))" by (simp add: lru_ok_def)
  have mem: "(key, v) \<in> set (entries l)" using Some by (rule map_of_SomeD)
  have s: "sum_list (map (\<lambda>e. sz (snd e)) (filter (\<lambda>e. fst e \<noteq> key) (entries l)))
           = sum_list (map (\<lambda>e. sz (snd e)) (entries l)) - sz v"
    using d Some by (rule sum_filter_key)
  have "0 \<le> sz v" using assms mem by (force simp: lru_ok_def)
  with assms s d show ?thesis
    by (auto simp: lru_Remove_def Some lru_ok_def distinct_filter_key)
qed

lemma lru_Remove_fields:
  "maxSize (lru_Remove sz key l) = maxSize l"
  "set (entries (lru_Remove sz key l)) \<subseteq> set (entries l)"
  "map_of (entries (lru_Remove sz key l)) key = None"
  by (auto simp: lru_Remove_def map_of_eq_None_iff split: option.splits)

lemma lru_Add_ok:
  assumes ok: "lru_ok sz l" and nn: "0 \<le> sz v" and r: "lru_Add sz key v l = (b, l', ev)"
  shows "lru_ok sz l'"
    and "maxSize l' = maxSize l"
    and "set (entries l') \<subseteq> insert (key, v) (set (entries l))"
proof -
  let ?l1 = "lru_Remove sz key l"
  have ok1: "lru_ok sz ?l1" using ok by (rule lru_Remove_ok)
  obtain es cs ev' where e: "evict sz (sz v) (maxSize ?l1) (entries ?l1) (currentSize ?l1) = (es, cs, ev')"
    by (cases "evict sz (sz v) (maxSize ?l1) (entries ?l1) (currentSize ?l1)") auto
  from evict_split[OF e] have sp: "entries ?l1 = ev' @ es"
    and cs: "cs = currentSize ?l1 - sum_list (map (\<lambda>e. sz (snd e)) ev')"
    and fit: "es = [] \<or> cs + sz v \<le> maxSize ?l1" by auto
  have sum1: "sum_list (map (\<lambda>e. sz (snd e)) (ev' @ es)) = currentSize ?l1"
    using ok1 sp by (simp add: lru_ok_def)
  then have sum_es: "sum_list (map (\<lambda>e. sz (snd e)) es) = cs" using cs by simp
  have nn_ev: "0 \<le> sum_list (map (\<lambda>e. sz (snd e)) ev')"
    using ok1 sp by (intro sum_list_nonneg) (auto simp: lru_ok_def)
  have le: "cs \<le> maxSize ?l1" using cs nn_ev ok1 by (simp add: lru_ok_def)
  have dist: "distinct (map fst es)" using ok1 sp by (simp add: lru_ok_def)
  have nokey: "key \<notin> fst ` set es"
  proof -
    have "map_of (entries ?l1) key = None" by (rule lru_Remove_fields)
    then have "key \<notin> fst ` set (entries ?l1)" by (simp add: map_of_eq_None_iff)
    then show ?thesis using sp by auto
  qed
  have pos: "\<forall>e \<in> set es. 0 \<le> sz (snd e)" using ok1 sp by (auto simp: lru_ok_def)
  have fit2: "sz v \<le> maxSize ?l1 \<Longrightarrow> cs + sz v \<le> maxSize ?l1"
    using fit sum_es by auto
  have sub: "set es \<subseteq> set (entries l)"
    using sp lru_Remove_fields(2)[of sz key l] by auto
  from r e have l': "l' = (if sz v > maxSize ?l1 then ?l1\<lparr>entries := es, currentSize := cs\<rparr>
                          else ?l1\<lparr>entries := es @ [(key, v)], currentSize := cs + sz v\<rparr>)"
    by (auto simp: lru_Add_def Let_def split: if_splits)
  show "lru_ok sz l'"
    using sum_es le dist nokey pos fit2 nn by (auto simp: l' lru_ok_def)
  show "maxSize l' = maxSize l"
    by (simp add: l' lru_Remove_fields)
  show "set (entries l') \<subseteq> insert (key, v) (set (entries l))"
    using sub by (auto simp: l')
qed


lemma lru_ok_cong:
  assumes "\<forall>e \<in> set (entries l). sz (snd e) = sz' (snd e)"
  shows "lru_ok sz l = lru_ok sz' l"
proof -
  have eq: "sum_list (map (\<lambda>e. sz (snd e)) (entries l)) = sum_list (map (\<lambda>e. sz' (snd e)) (entries l))"
    using assms by (intro arg_cong[of _ _ sum_list] map_cong) auto
  show ?thesis unfolding lru_ok_def eq using assms by auto
qed

lemma cache_inv_files [simp]: "cache_inv (c\<lparr>files := fs\<rparr>) = cache_inv c"
  by (simp add: cache_inv_def)

lemma cache_inv_new_lruItem:
  assumes "cache_inv c" and "new_lruItem n b c = (a, c1)"
  shows "cache_inv c1" and "a < next_item c1" and "item_size (items c1 a) = n"
proof -
  from assms(2) have c1: "c1 = c\<lparr>items := (items c)(next_item c := \<lparr>item_size = n, committed = b\<rparr>),
        next_item := Suc (next_item c)\<rparr>" and a: "a = next_item c"
    by (auto simp: new_lruItem_def)
  have fresh: "\<forall>e \<in> set (entries (lru c)). snd e < next_item c"
    using assms(1) by (simp add: cache_inv_def)
  then have "\<forall>e \<in> set (entries (lru c)).
      item_size (items c1 (snd e)) = item_size (items c (snd e))"
    by (auto simp: c1)
  then have "lru_ok (\<lambda>a. item_size (items c1 a)) (lru c) = lru_ok (\<lambda>a. item_size (items c a)) (lru c)"
    by (rule lru_ok_cong)
  moreover have "lru c1 = lru c" by (simp add: c1)
  ultimately show "cache_inv c1" using assms(1) fresh
    by (auto simp: cache_inv_def c1 less_Suc_eq)
  show "a < next_item c1" by (simp add: a c1)
  show "item_size (items c1 a) = n" by (simp add: a c1)
qed

lemma cache_inv_cache_Add:
  assumes "cache_inv c" and "v < next_item c" and "0 \<le> item_size (items c v)"
  shows "cache_inv (snd (cache_Add key v c))"
proof -
  obtain b l ev where r: "lru_Add (\<lambda>a. item_size (items c a)) key v (lru c) = (b, l, ev)"
    by (cases "lru_Add (\<lambda>a. item_size (items c a)) key v (lru c)") auto
  have ok: "lru_ok (\<lambda>a. item_size (items c a)) (lru c)" using assms(1) by (simp add: cache_inv_def)
  note A = lru_Add_ok[OF ok assms(3) r]
  have "\<forall>e \<in> set (entries l). snd e < next_item c"
    using A(3) assms(1,2) by (auto simp: cache_inv_def)
  with A(1) show ?thesis by (simp add: cache_Add_def r cache_inv_def)
qed

lemma cache_Add_next_item [simp]: "next_item (snd (cache_Add key v c)) = next_item c"
  by (simp add: cache_Add_def split: prod.splits)

lemma cache_inv_lru_Get:
  "cache_inv c \<Longrightarrow> cache_inv (c\<lparr>lru := snd (lru_Get key (lru c))\<rparr>)"
  using lru_Get_fields(3)[of key "lru c"]
  by (auto simp: cache_inv_def lru_Get_ok)

lemma cache_inv_lru_Remove:
  "cache_inv c \<Longrightarrow> cache_inv (c\<lparr>lru := lru_Remove (\<lambda>a. item_size (items c a)) key (lru c)\<rparr>)"
  using lru_Remove_fields(2)[of "\<lambda>a. item_size (items c a)" key "lru c"]
  by (auto simp: cache_inv_def lru_Remove_ok)

lemma cache_inv_commit:
  assumes "cache_inv c"
  shows "cache_inv (c\<lparr>items := (items c)(a := (items c a)\<lparr>committed := True\<rparr>)\<rparr>)"
proof -
  have "(\<lambda>x. item_size (((items c)(a := (items c a)\<lparr>committed := True\<rparr>)) x)) = (\<lambda>x. item_size (items c x))"
    by (rule ext) simp
  then show ?thesis using assms by (simp add: cache_inv_def)
qed

lemma cache_inv_put_begin:
  assumes "cache_inv c" and "0 \<le> expectedSize"
  shows "cache_inv (snd (put_begin kind hash expectedSize c))"
proof (cases "length hash \<noteq> sha256HashStrSize")
  case True
  then show ?thesis using assms by (simp add: put_begin_def)
next
  case False
  let ?key = "cacheKey kind hash"
  let ?c1 = "c\<lparr>lru := snd (lru_Get ?key (lru c))\<rparr>"
  have i1: "cache_inv ?c1" using assms(1) by (rule cache_inv_lru_Get)
  obtain a c2 where n: "new_lruItem expectedSize False ?c1 = (a, c2)"
    by (cases "new_lruItem expectedSize False ?c1") auto
  note N = cache_inv_new_lruItem[OF i1 n]
  have "cache_inv (snd (cache_Add ?key a c2))"
    using N assms(2) by (intro cache_inv_cache_Add) auto
  with i1 False n show ?thesis
    by (auto simp: put_begin_def Let_def split: prod.splits option.splits)
qed

lemma cache_inv_put_finish:
  assumes "cache_inv c"
  shows "cache_inv (snd (put_finish H io kind hash expectedSize r a c))"
proof -
  obtain err sc fs where u: "put_upload H io kind hash expectedSize r (files c) = (err, sc, fs)"
    by (cases "put_upload H io kind hash expectedSize r (files c)") auto
  let ?c1 = "c\<lparr>files := fs\<rparr>"
  have i1: "cache_inv ?c1" using assms by simp
  show ?thesis
    using cache_inv_commit[OF i1, of a] cache_inv_lru_Remove[OF i1, of "cacheKey kind hash"]
    by (simp add: put_finish_def u Let_def)
qed

lemma cache_inv_availableOrTryProxy:
  assumes "cache_inv c"
  shows "cache_inv (snd (availableOrTryProxy key c))"
proof -
  let ?c1 = "c\<lparr>lru := snd (lru_Get key (lru c))\<rparr>"
  have i1: "cache_inv ?c1" using assms by (rule cache_inv_lru_Get)
  obtain a c2 where n: "new_lruItem 0 False ?c1 = (a, c2)"
    by (cases "new_lruItem 0 False ?c1") auto
  note N = cache_inv_new_lruItem[OF i1 n]
  have "cache_inv (snd (cache_Add key a c2))"
    using N by (intro cache_inv_cache_Add) auto
  with i1 n show ?thesis
    by (auto simp: availableOrTryProxy_def split: prod.splits option.splits)
qed

lemma cache_inv_get_begin:
  assumes "cache_inv c"
  shows "cache_inv (snd (get_begin io kind hash c))"
  using assms cache_inv_availableOrTryProxy[OF assms, of "cacheKey kind hash"]
  by (auto simp: get_begin_def split: prod.splits option.splits)

lemma get_download_foundSize:
  "get_download io kind hash px fs = (res, True, foundSize, fs') \<Longrightarrow> 0 \<le> foundSize"
  by (auto simp: get_download_def Let_def split: option.splits prod.splits if_splits)

lemma cache_inv_get_finish:
  assumes "cache_inv c"
  shows "cache_inv (snd (get_finish io kind hash c))"
proof -
  obtain res sc n fs where d: "get_download io kind hash (proxy c) (files c) = (res, sc, n, fs)"
    by (cases "get_download io kind hash (proxy c) (files c)") auto
  let ?c1 = "c\<lparr>files := fs\<rparr>"
  have i1: "cache_inv ?c1" using assms by simp
  show ?thesis
  proof (cases sc)
    case True
    with d have nn: "0 \<le> n" by (auto dest: get_download_foundSize)
    obtain a c2 where nw: "new_lruItem n True ?c1 = (a, c2)"
      by (cases "new_lruItem n True ?c1") auto
    note N = cache_inv_new_lruItem[OF i1 nw]
    have "cache_inv (snd (cache_Add (cacheKey kind hash) a c2))"
      using N nn by (intro cache_inv_cache_Add) auto
    then show ?thesis using True by (simp add: get_finish_def d Let_def nw)
  next
    case False
    then show ?thesis
      using cache_inv_lru_Remove[OF i1, of "cacheKey kind hash"]
      by (simp add: get_finish_def d Let_def)
  qed
qed

lemma cache_inv_Contains:
  assumes "cache_inv c"
  shows "cache_inv (snd (Contains kind hash c))"
  using assms cache_inv_lru_Get[OF assms, of "cacheKey kind hash"]
  by (auto simp: Contains_def Let_def split: prod.splits option.splits)

lemma cache_inv_Put:
  assumes "cache_inv c" and "0 \<le> expectedSize"
  shows "cache_inv (snd (Put H io kind hash expectedSize r c))"
proof -
  have b: "cache_inv (snd (put_begin kind hash expectedSize c))"
    using assms by (rule cache_inv_put_begin)
  show ?thesis
    using b cache_inv_put_finish[OF b]
    by (cases "put_begin kind hash expectedSize c")
       (auto simp: Put_def split: put_admission.splits)
qed

lemma cache_inv_Get:
  assumes "cache_inv c"
  shows "cache_inv (snd (Get io kind hash c))"
proof -
  have b: "cache_inv (snd (get_begin io kind hash c))"
    using assms by (rule cache_inv_get_begin)
  show ?thesis
    using b cache_inv_get_finish[OF b]
    by (cases "get_begin io kind hash c") (auto simp: Get_def split: option.splits)
qed

lemma cache_inv_build_index:
  "cache_inv c \<Longrightarrow> cache_inv (build_index fs c)"
proof (induction fs arbitrary: c)
  case Nil
  then show ?case by simp
next
  case (Cons f fs)
  obtain a c1 where n: "new_lruItem (int (fi_Size (info f))) True c = (a, c1)"
    by (cases "new_lruItem (int (fi_Size (info f))) True c") auto
  note N = cache_inv_new_lruItem[OF Cons.prems n]
  have i2: "cache_inv (snd (cache_Add (name f) a c1))"
    using N by (intro cache_inv_cache_Add) auto
  obtain ok c2 where ad: "cache_Add (name f) a c1 = (ok, c2)"
    by (cases "cache_Add (name f) a c1") auto
  with i2 have "cache_inv c2" by simp
  then have "cache_inv (if ok then c2 else c2\<lparr>files := os_Remove (name f) (files c2)\<rparr>)"
    by simp
  then have "cache_inv (build_index fs (if ok then c2 else c2\<lparr>files := os_Remove (name f) (files c2)\<rparr>))"
    by (rule Cons.IH)
  then show ?case by (simp add: n ad)
qed

lemma cache_inv_New:
  assumes "0 \<le> maxSizeBytes" and "New io maxSizeBytes px fs walked = Inr c"
  shows "cache_inv c"
proof -
  let ?c0 = "new_DiskCache maxSizeBytes px fs"
  have "cache_inv ?c0" using assms(1)
    by (simp add: cache_inv_def lru_ok_def NewSizedLRU_def new_DiskCache_def)
  then have "cache_inv (loadExistingFiles walked ?c0)"
    unfolding loadExistingFiles_def by (rule cache_inv_build_index)
  then show ?thesis using assms(2) by (auto simp: New_def split: if_splits)
qed







lemma lru_Add_shape:
  assumes "lru_Add sz key v l = (b, l', ev)"
  shows "\<exists>es. entries (lru_Remove sz key l) = ev @ es \<and>
              entries l' = (if b then es @ [(key, v)] else es) \<and>
              key \<notin> fst ` set es \<and> key \<notin> fst ` set ev"
    and "b = (sz v \<le> maxSize l)"
    and "maxSize l' = maxSize l"
proof -
  let ?l1 = "lru_Remove sz key l"
  obtain es cs ev' where e: "evict sz (sz v) (maxSize ?l1) (entries ?l1) (currentSize ?l1) = (es, cs, ev')"
    by (cases "evict sz (sz v) (maxSize ?l1) (entries ?l1) (currentSize ?l1)") auto
  from evict_split[OF e] have sp: "entries ?l1 = ev' @ es" by simp
  have "map_of (entries ?l1) key = None" by (rule lru_Remove_fields)
  then have nk: "key \<notin> fst ` set ev'" "key \<notin> fst ` set es"
    by (auto simp: map_of_eq_None_iff sp)
  from assms e have ev: "ev = ev'" and b: "b = (sz v \<le> maxSize ?l1)"
    and l': "entries l' = (if b then es @ [(key, v)] else es)"
    and m: "maxSize l' = maxSize ?l1"
    by (auto simp: lru_Add_def Let_def split: if_splits)
  show "\<exists>es. entries (lru_Remove sz key l) = ev @ es \<and>
              entries l' = (if b then es @ [(key, v)] else es) \<and>
              key \<notin> fst ` set es \<and> key \<notin> fst ` set ev"
    using sp ev l' nk by auto
  show "b = (sz v \<le> maxSize l)" using b by (simp add: lru_Remove_fields)
  show "maxSize l' = maxSize l" using m by (simp add: lru_Remove_fields)
qed










lemma availableOrTryProxy_uncommitted:
  assumes "map_of (entries (lru c)) key = Some a" and "\<not> committed (items c a)"
  shows "availableOrTryProxy key c = ((False, False), c\<lparr>lru := snd (lru_Get key (lru c))\<rparr>)"
  using assms lru_Get_fields(5)[of key "lru c"]
  by (cases "lru_Get key (lru c)") (simp add: availableOrTryProxy_def)












































lemma all_committed_lru_Get:
  "all_committed c \<Longrightarrow> all_committed (c\<lparr>lru := snd (lru_Get key (lru c))\<rparr>)"
  using lru_Get_fields(3)[of key "lru c"] by (auto simp: all_committed_def)

lemma committed_but_add_new:
  assumes inv: "cache_inv c" and ac: "committed_but (key, x) c"
    and n: "new_lruItem n b c = (a, c1)" and ad: "cache_Add key a c1 = (ok, c2)"
  shows "committed_but (key, a) c2" and "\<not> ok \<Longrightarrow> all_committed c2"
    and "b \<Longrightarrow> all_committed c2"
proof -
  from n have a: "a = next_item c" and c1: "lru c1 = lru c"
    "items c1 = (items c)(a := \<lparr>item_size = n, committed = b\<rparr>)"
    by (auto simp: new_lruItem_def)
  obtain l ev where r: "lru_Add (\<lambda>x. item_size (items c1 x)) key a (lru c1) = (ok, l, ev)"
    using ad by (auto simp: cache_Add_def split: prod.splits)
  with ad have c2: "lru c2 = l" "items c2 = items c1" by (auto simp: cache_Add_def)
  from lru_Add_shape(1)[OF r] obtain es where
    sp: "entries (lru_Remove (\<lambda>x. item_size (items c1 x)) key (lru c1)) = ev @ es"
    and l: "entries l = (if ok then es @ [(key, a)] else es)" by auto
  have sub: "set es \<subseteq> set (entries (lru c))"
    using sp lru_Remove_fields(2)[of "\<lambda>x. item_size (items c1 x)" key "lru c1"] c1 by auto
  have nokey: "key \<notin> fst ` set es"
  proof -
    have "map_of (entries (lru_Remove (\<lambda>x. item_size (items c1 x)) key (lru c1))) key = None"
      by (rule lru_Remove_fields)
    then show ?thesis by (simp add: map_of_eq_None_iff sp image_Un)
  qed
  have old: "committed (items c2 (snd e))" if "e \<in> set es" for e
  proof -
    from that sub have m: "e \<in> set (entries (lru c))" by auto
    with inv have "snd e < next_item c" by (simp add: cache_inv_def)
    then have "items c2 (snd e) = items c (snd e)" by (simp add: c2 c1 a)
    moreover have "e \<noteq> (key, x)" using nokey that by (metis fst_conv imageI)
    ultimately show ?thesis using ac m by (auto simp: committed_but_def)
  qed
  show "committed_but (key, a) c2"
    using old by (auto simp: committed_but_def c2 l)
  show "all_committed c2" if "\<not> ok"
    using old that by (auto simp: all_committed_def c2 l)
  show "all_committed c2" if b
    using old that by (auto simp: all_committed_def c2 l c1)
qed

lemma put_begin_committed_but:
  assumes inv: "cache_inv c" and ac: "all_committed c"
    and b: "put_begin kind hash n c = (ad, c1)"
  shows "case ad of Admitted a \<Rightarrow> committed_but (cacheKey kind hash, a) c1 | _ \<Rightarrow> all_committed c1"
proof (cases "length hash \<noteq> sha256HashStrSize")
  case True
  with b ac show ?thesis by (auto simp: put_begin_def)
next
  case False
  let ?key = "cacheKey kind hash"
  let ?c1 = "c\<lparr>lru := snd (lru_Get ?key (lru c))\<rparr>"
  have i1: "cache_inv ?c1" using inv by (rule cache_inv_lru_Get)
  have a1: "all_committed ?c1" using ac by (rule all_committed_lru_Get)
  obtain a c2 where n: "new_lruItem n False ?c1 = (a, c2)"
    by (cases "new_lruItem n False ?c1") auto
  obtain ok c3 where add: "cache_Add ?key a c2 = (ok, c3)"
    by (cases "cache_Add ?key a c2") auto
  have "committed_but (?key, 0) ?c1" using a1 by (simp add: committed_but_def all_committed_def)
  note N = committed_but_add_new[OF i1 this n add]
  from b False n add have "(ad, c1) = (Drained, ?c1) \<or> (ad, c1) = (Rejected ErrTooBig, c3) \<and> \<not> ok
      \<or> (ad, c1) = (Admitted a, c3)"
    by (cases "lru_Get ?key (lru c)") (auto simp: put_begin_def Let_def split: if_splits)
  then show ?thesis using a1 N(1,2) by auto
qed

lemma put_finish_all_committed:
  assumes "committed_but (cacheKey kind hash, a) c"
  shows "all_committed (snd (put_finish H io kind hash n r a c))"
proof -
  obtain e sc fs where u: "put_upload H io kind hash n r (files c) = (e, sc, fs)"
    by (cases "put_upload H io kind hash n r (files c)") auto
  show ?thesis
  proof (cases sc)
    case True
    then show ?thesis using assms
      by (auto simp: put_finish_def u Let_def all_committed_def committed_but_def)
  next
    case False
    have "e' \<noteq> (cacheKey kind hash, a)"
      if "e' \<in> set (entries (lru_Remove (\<lambda>x. item_size (items c x)) (cacheKey kind hash) (lru c)))"
      for e'
    proof
      assume "e' = (cacheKey kind hash, a)"
      with that have "cacheKey kind hash \<in> fst ` set (entries (lru_Remove (\<lambda>x. item_size (items c x))
          (cacheKey kind hash) (lru c)))" by (metis fst_conv imageI)
      moreover have "map_of (entries (lru_Remove (\<lambda>x. item_size (items c x))
          (cacheKey kind hash) (lru c))) (cacheKey kind hash) = None" by (rule lru_Remove_fields)
      ultimately show False by (simp add: map_of_eq_None_iff)
    qed
    note ne = this
    let ?l = "lru_Remove (\<lambda>x. item_size (items c x)) (cacheKey kind hash) (lru c)"
    have sn: "snd (put_finish H io kind hash n r a c) = c\<lparr>files := fs, lru := ?l\<rparr>"
      using False by (simp add: put_finish_def u Let_def)
    have "committed (items c (snd e'))" if m: "e' \<in> set (entries ?l)" for e'
    proof -
      have "e' \<in> set (entries (lru c))"
        using m lru_Remove_fields(2)[of "\<lambda>x. item_size (items c x)" "cacheKey kind hash" "lru c"]
        by auto
      moreover have "e' \<noteq> (cacheKey kind hash, a)" using m by (rule ne)
      ultimately show ?thesis using assms by (auto simp: committed_but_def)
    qed
    then show ?thesis by (simp add: sn all_committed_def)
  qed
qed

lemma all_committed_Put:
  assumes "cache_inv c" and "all_committed c"
  shows "all_committed (snd (Put H io kind hash n r c))"
proof -
  obtain ad c1 where b: "put_begin kind hash n c = (ad, c1)"
    by (cases "put_begin kind hash n c") auto
  note B = put_begin_committed_but[OF assms b]
  show ?thesis
  proof (cases ad)
    case (Admitted a)
    with B have "committed_but (cacheKey kind hash, a) c1" by simp
    then have "all_committed (snd (put_finish H io kind hash n r a c1))"
      by (rule put_finish_all_committed)
    then show ?thesis by (simp add: Put_def b Admitted)
  qed (use B b in \<open>auto simp: Put_def\<close>)
qed

lemma lru_Remove_all_committed:
  assumes "committed_but (key, a) c"
  shows "all_committed (c\<lparr>lru := lru_Remove (\<lambda>x. item_size (items c x)) key (lru c)\<rparr>)"
proof -
  let ?l = "lru_Remove (\<lambda>x. item_size (items c x)) key (lru c)"
  have "committed (items c (snd e'))" if m: "e' \<in> set (entries ?l)" for e'
  proof -
    have "e' \<in> set (entries (lru c))"
      using m lru_Remove_fields(2)[of "\<lambda>x. item_size (items c x)" key "lru c"] by auto
    moreover have "e' \<noteq> (key, a)"
    proof
      assume "e' = (key, a)"
      with m have "key \<in> fst ` set (entries ?l)" by (metis fst_conv imageI)
      moreover have "map_of (entries ?l) key = None" by (rule lru_Remove_fields)
      ultimately show False by (simp add: map_of_eq_None_iff)
    qed
    ultimately show ?thesis using assms by (auto simp: committed_but_def)
  qed
  then show ?thesis by (simp add: all_committed_def)
qed

lemma get_begin_committed_but:
  assumes inv: "cache_inv c" and ac: "all_committed c"
    and b: "get_begin io kind hash c = (res, c1)"
  shows "case res of Some r \<Rightarrow> all_committed c1
         | None \<Rightarrow> \<exists>a. committed_but (cacheKey kind hash, a) c1"
proof (cases "length hash \<noteq> sha256HashStrSize")
  case True
  with b ac show ?thesis by (auto simp: get_begin_def)
next
  case False
  let ?key = "cacheKey kind hash"
  let ?c1 = "c\<lparr>lru := snd (lru_Get ?key (lru c))\<rparr>"
  have i1: "cache_inv ?c1" using inv by (rule cache_inv_lru_Get)
  have a1: "all_committed ?c1" using ac by (rule all_committed_lru_Get)
  obtain a c2 where n: "new_lruItem 0 False ?c1 = (a, c2)"
    by (cases "new_lruItem 0 False ?c1") auto
  obtain ok c3 where add: "cache_Add ?key a c2 = (ok, c3)"
    by (cases "cache_Add ?key a c2") auto
  have "committed_but (?key, 0) ?c1" using a1 by (simp add: committed_but_def all_committed_def)
  note N = committed_but_add_new[OF i1 this n add]
  obtain av tp c' where av: "availableOrTryProxy ?key c = ((av, tp), c')"
    by (cases "availableOrTryProxy ?key c") auto
  then have "c' = ?c1 \<and> \<not> tp \<or> c' = c3 \<and> tp = ok \<and> \<not> av"
    using n add by (cases "lru_Get ?key (lru c)")
      (auto simp: availableOrTryProxy_def split: option.splits)
  moreover from b False av have "c1 = c'" and "res = None \<longleftrightarrow> \<not> av \<and> tp"
    by (auto simp: get_begin_def split: if_splits option.splits)
  ultimately show ?thesis using a1 N by (cases res) auto
qed

lemma get_finish_all_committed:
  assumes inv: "cache_inv c" and cb: "committed_but (cacheKey kind hash, a) c"
  shows "all_committed (snd (get_finish io kind hash c))"
proof -
  obtain res sc n fs where d: "get_download io kind hash (proxy c) (files c) = (res, sc, n, fs)"
    by (cases "get_download io kind hash (proxy c) (files c)") auto
  let ?c1 = "c\<lparr>files := fs\<rparr>"
  have i1: "cache_inv ?c1" using inv by simp
  have cb1: "committed_but (cacheKey kind hash, a) ?c1" using cb by (simp add: committed_but_def)
  show ?thesis
  proof (cases sc)
    case True
    obtain a' c2 where nw: "new_lruItem n True ?c1 = (a', c2)"
      by (cases "new_lruItem n True ?c1") auto
    obtain ok c3 where add: "cache_Add (cacheKey kind hash) a' c2 = (ok, c3)"
      by (cases "cache_Add (cacheKey kind hash) a' c2") auto
    have "all_committed c3" using committed_but_add_new(3)[OF i1 cb1 nw add] by simp
    then show ?thesis using True by (simp add: get_finish_def d Let_def nw add)
  next
    case False
    then show ?thesis
      using lru_Remove_all_committed[OF cb1] by (simp add: get_finish_def d Let_def)
  qed
qed

lemma all_committed_Get:
  assumes "cache_inv c" and "all_committed c"
  shows "all_committed (snd (Get io kind hash c))"
proof -
  obtain res c1 where b: "get_begin io kind hash c = (res, c1)"
    by (cases "get_begin io kind hash c") auto
  note B = get_begin_committed_but[OF assms b]
  have i1: "cache_inv c1" using cache_inv_get_begin[OF assms(1), of io kind hash] b by simp
  show ?thesis
  proof (cases res)
    case None
    with B obtain a where "committed_but (cacheKey kind hash, a) c1" by auto
    with i1 have "all_committed (snd (get_finish io kind hash c1))"
      by (rule get_finish_all_committed)
    then show ?thesis by (simp add: Get_def b None)
  next
    case (Some r)
    with B show ?thesis by (simp add: Get_def b)
  qed
qed

lemma all_committed_Contains:
  assumes "all_committed c"
  shows "all_committed (snd (Contains kind hash c))"
  using assms all_committed_lru_Get[OF assms, of "cacheKey kind hash"]
  by (auto simp: Contains_def Let_def split: prod.splits option.splits)

lemma all_committed_build_index:
  "cache_inv c \<Longrightarrow> all_committed c \<Longrightarrow> all_committed (build_index fs c)"
proof (induction fs arbitrary: c)
  case Nil
  then show ?case by simp
next
  case (Cons f fs)
  obtain a c1 where n: "new_lruItem (int (fi_Size (info f))) True c = (a, c1)"
    by (cases "new_lruItem (int (fi_Size (info f))) True c") auto
  obtain ok c2 where ad: "cache_Add (name f) a c1 = (ok, c2)"
    by (cases "cache_Add (name f) a c1") auto
  note N = cache_inv_new_lruItem[OF Cons.prems(1) n]
  have i2: "cache_inv c2"
    using cache_inv_cache_Add[of c1 a "name f"] N ad by simp
  have "committed_but (name f, 0) c" using Cons.prems(2)
    by (simp add: committed_but_def all_committed_def)
  from committed_but_add_new(3)[OF Cons.prems(1) this n ad] have a2: "all_committed c2" by simp
  let ?c = "if ok then c2 else c2\<lparr>files := os_Remove (name f) (files c2)\<rparr>"
  have "cache_inv ?c" using i2 by simp
  moreover have "all_committed ?c" using a2 by (simp add: all_committed_def)
  ultimately have "all_committed (build_index fs ?c)" by (rule Cons.IH)
  then show ?case by (simp add: n ad)
qed

lemma sequential_use_leaves_no_upload_in_flight:
  assumes "0 \<le> maxSizeBytes" and "New io maxSizeBytes px fs walked = Inr c0"
    and "list_all declared_size_ok ops" and "list_all whole_op ops"
  shows "all_committed (run H ops c0)"
proof -
  have i0: "cache_inv c0" using assms(1,2) by (rule cache_inv_New)
  have "cache_inv (new_DiskCache maxSizeBytes px fs)" using assms(1)
    by (simp add: cache_inv_def lru_ok_def NewSizedLRU_def new_DiskCache_def)
  moreover have "all_committed (new_DiskCache maxSizeBytes px fs)"
    by (simp add: all_committed_def NewSizedLRU_def new_DiskCache_def)
  ultimately have "all_committed (loadExistingFiles walked (new_DiskCache maxSizeBytes px fs))"
    unfolding loadExistingFiles_def by (rule all_committed_build_index)
  then have a0: "all_committed c0" using assms(2) by (auto simp: New_def split: if_splits)
  have st: "cache_inv (step H op c) \<and> all_committed (step H op c)"
    if "cache_inv c" "all_committed c" "declared_size_ok op" "whole_op op" for op c
    using that
    by (cases op)
       (simp_all add: cache_inv_Put all_committed_Put cache_inv_Get all_committed_Get
          cache_inv_Contains all_committed_Contains)
  have "cache_inv c \<Longrightarrow> all_committed c \<Longrightarrow> list_all declared_size_ok ops \<Longrightarrow>
        list_all whole_op ops \<Longrightarrow> all_committed (fold (step H) ops c)" for c
  proof (induction ops arbitrary: c)
    case Nil
    then show ?case by simp
  next
    case (Cons op ops)
    with st[of c op] show ?case by simp
  qed
  then show ?thesis using i0 a0 assms(3,4) by (simp add: run_def)
qed

section \<open>The claims\<close>





text \<open>
  C3, as stated, fails: for a key whose entry is uncommitted, \<open>Contains\<close> asks the proxy
  when there is one, and reports what the proxy answers.
\<close>

theorem Contains_uncommitted_counterexample:
  "map_of (entries (lru (snd (put_begin CAS hash_a 1 (new_DiskCache 10 (Some proxy_has_5) Map.empty)))))
     (cacheKey CAS hash_a) = Some 0 \<and>
   \<not> committed (items (snd (put_begin CAS hash_a 1 (new_DiskCache 10 (Some proxy_has_5) Map.empty))) 0) \<and>
   fst (Contains CAS hash_a (snd (put_begin CAS hash_a 1 (new_DiskCache 10 (Some proxy_has_5) Map.empty))))
     = (True, 5)"
  by code_simp

text \<open>
  C3, amended. For a hash of 64 bytes, \<open>Contains\<close> reports \<open>(true, size)\<close> from the index
  for a committed entry, and only for a committed entry. For a key whose entry is
  uncommitted and for a key without entry it reports the answer of the proxy when a proxy
  is configured, and \<open>(false, -1)\<close> when none is.
\<close>

theorem Contains_answer:
  assumes "length hash = sha256HashStrSize"
  shows "fst (Contains kind hash c) =
     (case map_of (entries (lru c)) (cacheKey kind hash) of
        Some a \<Rightarrow>
          if committed (items c a) then (True, item_size (items c a))
          else (case proxy c of Some p \<Rightarrow> proxy_Contains p kind hash | None \<Rightarrow> (False, -1))
      | None \<Rightarrow> (case proxy c of Some p \<Rightarrow> proxy_Contains p kind hash | None \<Rightarrow> (False, -1)))"
  using assms lru_Get_fields(5)[of "cacheKey kind hash" "lru c"]
  by (cases "lru_Get (cacheKey kind hash) (lru c)")
     (auto simp: Contains_def Let_def split: option.splits)

theorem Contains_answer_witness:
  "fst (Contains CAS hash_a (snd (put_begin CAS hash_a 1 (new_DiskCache 10 None Map.empty))))
   = (False, -1)"
proof -
  have h: "length hash_a = sha256HashStrSize" by code_simp
  have m: "map_of (entries (lru (snd (put_begin CAS hash_a 1 (new_DiskCache 10 None Map.empty)))))
     (cacheKey CAS hash_a) = Some 0" by code_simp
  have u: "\<not> committed (items (snd (put_begin CAS hash_a 1 (new_DiskCache 10 None Map.empty))) 0)"
    by code_simp
  have p: "proxy (snd (put_begin CAS hash_a 1 (new_DiskCache 10 None Map.empty))) = None"
    by code_simp
  show ?thesis
    using Contains_answer[OF h, of CAS "snd (put_begin CAS hash_a 1 (new_DiskCache 10 None Map.empty))"]
    by (simp add: m u p)
qed



text \<open>
  C6. For every key whose index entry is uncommitted, \<open>Get\<close> returns not-found; it
  makes no system call (the answer is the same under every fault and for every content
  of the directory) and changes nothing but the position of the entry in the index.
\<close>

theorem get_of_uncommitted_is_miss:
  assumes "length hash = sha256HashStrSize"
    and "map_of (entries (lru c)) (cacheKey kind hash) = Some a"
    and "\<not> committed (items c a)"
  shows "Get io kind hash c = (GetMiss, c\<lparr>lru := snd (lru_Get (cacheKey kind hash) (lru c))\<rparr>)"
  using assms availableOrTryProxy_uncommitted[OF assms(2,3)]
  by (simp add: Get_def get_begin_def)

theorem get_of_uncommitted_is_miss_witness:
  "fst (Get NoFault CAS hash_a (snd (put_begin CAS hash_a 1 (new_DiskCache 10 None Map.empty))))
   = GetMiss"
proof -
  let ?c1 = "snd (put_begin CAS hash_a 1 (new_DiskCache 10 None Map.empty))"
  have h1: "length hash_a = sha256HashStrSize" by code_simp
  have h2: "map_of (entries (lru ?c1)) (cacheKey CAS hash_a) = Some 0" by code_simp
  have h3: "\<not> committed (items ?c1 0)" by code_simp
  show ?thesis using get_of_uncommitted_is_miss[OF h1 h2 h3, of NoFault] by simp
qed














end
